theory Spec2Isabelle
  imports Main
begin

section \<open>Go values used by pubsub/redis.go\<close>

text \<open>
  A Go \<open>error\<close> is an interface value: \<open>None\<close> is \<open>nil\<close>, \<open>Some m\<close> a non-nil error
  with message \<open>m\<close>. A \<open>[]byte\<close> payload is a list of bytes, kept abstract as a string.
\<close>

type_synonym error = "string option"

datatype panic = Panic string

text \<open>
  Go's \<open>int\<close> and \<open>time.Duration\<close> (an \<open>int64\<close>) on a 64-bit platform: arithmetic is
  done on \<open>int\<close> and every result is wrapped into the two's complement range.
\<close>

definition int64 :: "int \<Rightarrow> int" where
  "int64 x = (x + 2 ^ 63) mod 2 ^ 64 - 2 ^ 63"

definition Second :: int where
  "Second = 1000000000"

definition maxReconnectAttempts :: int where
  "maxReconnectAttempts = 5"

text \<open>
  \<open>rand.Intn(n)\<close> panics if \<open>n <= 0\<close> and otherwise returns a number of the half-open
  interval \<open>[0, n)\<close>. The value \<open>raw\<close> is what the random source yields for this call;
  it is reduced into the interval.
\<close>

definition Intn :: "nat \<Rightarrow> int \<Rightarrow> panic + int" where
  "Intn raw n =
     (if n \<le> 0 then Inl (Panic ''invalid argument to Intn'') else Inr (int raw mod n))"

section \<open>The Backoff Calculator\<close>

text \<open>
  \<^verbatim>\<open>
  func nextRetry(step int) time.Duration {
      secs := (step * step) + (rand.Intn(step*4) * (step + 1))
      return time.Duration(secs) * time.Second
  }
  \<close>
  The result is the duration in nanoseconds.
\<close>

definition nextRetry :: "int \<Rightarrow> nat \<Rightarrow> panic + int" where
  "nextRetry step raw =
     (case Intn raw (int64 (step * 4)) of
        Inl p \<Rightarrow> Inl p
      | Inr r \<Rightarrow>
          let secs = int64 (int64 (step * step) + int64 (r * int64 (step + 1)))
          in Inr (int64 (secs * Second)))"

section \<open>The subscriber\<close>

record subscriber =
  url :: string
  sentinelsEnabled :: bool
  sentinels :: string
  password :: string
  masterName :: string
  channel :: string
  reconnectAttempt :: int

text \<open>
  \<open>NewRedisSubscriber\<close>; the node and the logger are external collaborators, their
  calls appear in the traces below.
\<close>

definition NewRedisSubscriber ::
  "string \<Rightarrow> bool \<Rightarrow> string \<Rightarrow> string \<Rightarrow> string \<Rightarrow> string \<Rightarrow> subscriber" where
  "NewRedisSubscriber u se ss mn pw ch =
     \<lparr> url = u, sentinelsEnabled = se, sentinels = ss, password = pw,
       masterName = mn, channel = ch, reconnectAttempt = 0 \<rparr>"

section \<open>A live session: the receive goroutine and the ping loop\<close>

text \<open>
  What \<open>psc.Receive()\<close> yields: a \<open>redis.Message\<close> (channel and data), a
  \<open>redis.Subscription\<close> (channel), an \<open>error\<close>, or a value of another type (such as
  the reply to a ping), which no case of the type switch matches.
\<close>

datatype event =
    Message string string
  | Subscription string
  | RecvError string
  | Other

text \<open>
  The goroutine is either about to call \<open>psc.Receive()\<close> or about to execute
  \<open>done <- v\<close>. The \<open>break\<close> after the send leaves the \<open>switch\<close> only, so after the
  send the goroutine is back at \<open>psc.Receive()\<close>.
\<close>

datatype recv_state = Receiving | Sending string

text \<open>
  The foreground of \<open>listen\<close>: in the \<open>select\<close> of the loop (with \<open>err == nil\<close>), after
  \<open>break loop\<close> with the ping error in \<open>err\<close>, at \<open>return <-done\<close> (still holding the
  ping error), or returned.
\<close>

datatype main_state =
    Selecting
  | Unsubscribing string
  | Waiting string
  | Returned error

record live =
  recv :: recv_state
  main :: main_state
  done_chan :: "error option"
  received :: "event list"
  handled :: "string list"
  written :: "error list"
  taken :: "error list"
  pings :: nat
  unsubscribed :: bool

text \<open>
  \<open>done := make(chan error, 1)\<close> is a buffer of one slot: \<open>None\<close> is the empty
  channel. The logs \<open>received\<close>, \<open>handled\<close> (calls of \<open>node.HandlePubsub\<close>),
  \<open>written\<close> and \<open>taken\<close> (completed sends to and receives from \<open>done\<close>) only record.
\<close>

definition live0 :: live where
  "live0 = \<lparr> recv = Receiving, main = Selecting, done_chan = None, received = [],
             handled = [], written = [], taken = [], pings = 0, unsubscribed = False \<rparr>"

text \<open>
  \<^verbatim>\<open>
  done := make(chan error, 1)
  go func() {
      for {
          switch v := psc.Receive().(type) {
          case redis.Message:      s.node.HandlePubsub(v.Data)
          case redis.Subscription: (log)
          case error:              done <- v
                                   break
          }
      }
  }()
  ticker := time.NewTicker(time.Minute)
  loop:
      for err == nil {
          select {
          case <-ticker.C:
              if err = psc.Ping(""); err != nil { break loop }
          case err := <-done:
              return err
          }
      }
      psc.Unsubscribe()
      return <-done
  \<close>
  One move of the session, chosen by the scheduler and the environment:
  the goroutine's \<open>Receive\<close> returns an event; its pending send completes; the ticker
  fires and \<open>psc.Ping\<close> returns an error value; the foreground executes
  \<open>psc.Unsubscribe()\<close>; the foreground receives from \<open>done\<close>. A move that is not
  enabled (a send on the full channel, a receive from the empty one) leaves the state
  as it is: that activity stays blocked.
\<close>

datatype action =
    Receive event
  | Send
  | Tick error
  | Unsubscribe
  | TakeDone

fun live_step :: "action \<Rightarrow> live \<Rightarrow> live" where
  "live_step (Receive ev) st =
     (case recv st of
        Sending m \<Rightarrow> st
      | Receiving \<Rightarrow>
          (case ev of
             Message ch d \<Rightarrow>
               st\<lparr>received := received st @ [ev], handled := handled st @ [d]\<rparr>
           | Subscription ch \<Rightarrow> st\<lparr>received := received st @ [ev]\<rparr>
           | RecvError m \<Rightarrow> st\<lparr>received := received st @ [ev], recv := Sending m\<rparr>
           | Other \<Rightarrow> st\<lparr>received := received st @ [ev]\<rparr>))"
| "live_step Send st =
     (case recv st of
        Receiving \<Rightarrow> st
      | Sending m \<Rightarrow>
          (case done_chan st of
             Some v \<Rightarrow> st
           | None \<Rightarrow>
               st\<lparr>done_chan := Some (Some m), written := written st @ [Some m],
                  recv := Receiving\<rparr>))"
| "live_step (Tick e) st =
     (case main st of
        Selecting \<Rightarrow>
          (case e of
             None \<Rightarrow> st\<lparr>pings := Suc (pings st)\<rparr>
           | Some m \<Rightarrow> st\<lparr>pings := Suc (pings st), main := Unsubscribing m\<rparr>)
      | _ \<Rightarrow> st)"
| "live_step Unsubscribe st =
     (case main st of
        Unsubscribing m \<Rightarrow> st\<lparr>unsubscribed := True, main := Waiting m\<rparr>
      | _ \<Rightarrow> st)"
| "live_step TakeDone st =
     (case done_chan st of
        None \<Rightarrow> st
      | Some v \<Rightarrow>
          (case main st of
             Selecting \<Rightarrow> st\<lparr>done_chan := None, taken := taken st @ [v], main := Returned v\<rparr>
           | Waiting m \<Rightarrow> st\<lparr>done_chan := None, taken := taken st @ [v], main := Returned v\<rparr>
           | _ \<Rightarrow> st))"

fun run_live :: "action list \<Rightarrow> live \<Rightarrow> live" where
  "run_live [] st = st"
| "run_live (a # as) st = run_live as (live_step a st)"

section \<open>listen: one session\<close>

text \<open>
  The environment of one call of \<open>listen\<close>: the error of \<open>redis.DialURL\<close> (direct mode
  only; in sentinel mode \<open>pool.Get()\<close> returns no error and a failed dial shows in
  \<open>Subscribe\<close>), the error of \<open>psc.Subscribe\<close>, the moves of the live session, and the
  draw of the random source for the \<open>nextRetry\<close> that follows the session.
\<close>

record session_env =
  dial :: error
  subscribe :: error
  sched :: "action list"
  raw :: nat

text \<open>
  A call either returns a value or is still running when the schedule ends. The
  observations are the calls and assignments a run of \<open>Start\<close> makes, in order.
\<close>

datatype 'a outcome = Returns 'a | Running

datatype obs =
    ListenCall
  | Subscribed
  | Counter int
  | ListenReturn error
  | NextRetry int
  | Sleep int

text \<open>
  \<open>listen\<close> returns the dial error (direct mode) or the subscribe error; otherwise it
  sets \<open>reconnectAttempt\<close> to 0, starts the live session and returns what the
  foreground returns, if it does.
\<close>

definition listen_live :: "session_env \<Rightarrow> live" where
  "listen_live env = run_live (sched env) live0"

definition listen :: "session_env \<Rightarrow> subscriber \<Rightarrow> error outcome \<times> subscriber \<times> obs list" where
  "listen env s =
     (if \<not> sentinelsEnabled s \<and> dial env \<noteq> None then (Returns (dial env), s, [])
      else
        (case subscribe env of
           Some m \<Rightarrow> (Returns (Some m), s, [])
         | None \<Rightarrow>
             (case main (listen_live env) of
                Returned v \<Rightarrow> Returns v
              | _ \<Rightarrow> Running,
              s\<lparr>reconnectAttempt := 0\<rparr>, [Subscribed, Counter 0])))"

section \<open>The sentinel pool as listen configures it\<close>

text \<open>
  In sentinel mode \<open>listen\<close> builds a \<open>redis.Pool\<close> with these fields and this
  \<open>TestOnBorrow\<close> callback; \<open>sentinel.TestRole\<close> is library code and is the parameter
  \<open>testRole\<close>. When the pool calls the callback is decided by the library.
\<close>

record pool_config =
  MaxIdle :: int
  MaxActive :: int
  Wait :: bool
  IdleTimeout :: int

definition sentinel_pool :: pool_config where
  "sentinel_pool = \<lparr> MaxIdle = 3, MaxActive = 64, Wait = True, IdleTimeout = 240 * Second \<rparr>"

definition TestOnBorrow :: "('c \<Rightarrow> string \<Rightarrow> bool) \<Rightarrow> 'c \<Rightarrow> error" where
  "TestOnBorrow testRole c =
     (if \<not> testRole c ''master'' then Some ''Role check failed'' else None)"

section \<open>Start: the reconnect supervisor\<close>

text \<open>
  \<^verbatim>\<open>
  for {
      if err := s.listen(); err != nil { (log) }
      s.reconnectAttempt++
      if s.reconnectAttempt >= maxReconnectAttempts {
          return errors.New("Redis reconnect attempts exceeded")
      }
      delay := nextRetry(s.reconnectAttempt)
      time.Sleep(delay)
  }
  \<close>
  The loop runs once for each session environment supplied. \<open>Start\<close> has not returned
  when the environments are used up or when a session has not returned; it has
  panicked if \<open>nextRetry\<close> has.
\<close>

datatype start_outcome = Failed error | Panicked panic | NotReturned

fun Start_loop :: "session_env list \<Rightarrow> subscriber \<Rightarrow> start_outcome \<times> subscriber \<times> obs list" where
  "Start_loop [] s = (NotReturned, s, [])"
| "Start_loop (env # envs) s =
     (case listen env s of
        (Running, s1, tr1) \<Rightarrow> (NotReturned, s1, ListenCall # tr1)
      | (Returns err, s1, tr1) \<Rightarrow>
          let n = int64 (reconnectAttempt s1 + 1);
              s2 = s1\<lparr>reconnectAttempt := n\<rparr>;
              tr2 = ListenCall # tr1 @ [ListenReturn err, Counter n]
          in if n \<ge> maxReconnectAttempts
             then (Failed (Some ''Redis reconnect attempts exceeded''), s2, tr2)
             else
               (case nextRetry n (raw env) of
                  Inl p \<Rightarrow> (Panicked p, s2, tr2 @ [NextRetry n])
                | Inr delay \<Rightarrow>
                    (case Start_loop envs s2 of
                       (out, s3, tr3) \<Rightarrow> (out, s3, tr2 @ [NextRetry n, Sleep delay] @ tr3))))"

text \<open>
  \<open>Start\<close> first checks the URL with \<open>url.Parse\<close> of the standard library, taken as the
  parameter \<open>parse\<close> (the error component of its result).
\<close>

definition Start ::
  "(string \<Rightarrow> error) \<Rightarrow> session_env list \<Rightarrow> subscriber \<Rightarrow> start_outcome \<times> subscriber \<times> obs list" where
  "Start parse envs s =
     (case parse (url s) of
        Some m \<Rightarrow> (Failed (Some m), s, [])
      | None \<Rightarrow> Start_loop envs s)"

section \<open>Reading traces\<close>

text \<open>
  The number of failed sessions since the last successful subscribe, as the spec
  describes the counter: a session that returns is a failure, a successful subscribe
  starts the count again. \<open>k\<close> is the count before the trace.
\<close>

fun fails_since :: "nat \<Rightarrow> obs list \<Rightarrow> nat" where
  "fails_since k [] = k"
| "fails_since k (Subscribed # t) = fails_since 0 t"
| "fails_since k (ListenReturn e # t) = fails_since (Suc k) t"
| "fails_since k (ListenCall # t) = fails_since k t"
| "fails_since k (Counter c # t) = fails_since k t"
| "fails_since k (NextRetry n # t) = fails_since k t"
| "fails_since k (Sleep d # t) = fails_since k t"


text \<open>
  A trace follows the counter discipline from count \<open>k\<close>: a successful subscribe is
  followed at once by the assignment of 0, a returned session by the assignment of the
  count plus one, and there is no other assignment.
\<close>

fun counted :: "nat \<Rightarrow> obs list \<Rightarrow> bool" where
  "counted k [] = True"
| "counted k (Subscribed # Counter c # t) = (c = 0 \<and> counted 0 t)"
| "counted k (ListenReturn e # Counter c # t) = (c = int k + 1 \<and> counted (Suc k) t)"
| "counted k (Subscribed # t) = False"
| "counted k (ListenReturn e # t) = False"
| "counted k (Counter c # t) = False"
| "counted k (ListenCall # t) = counted k t"
| "counted k (NextRetry n # t) = counted k t"
| "counted k (Sleep d # t) = counted k t"

text \<open>
  Once the count has reached the ceiling, the trace holds nothing but the assignment
  of the counter that follows the last return.
\<close>

fun is_Counter :: "obs \<Rightarrow> bool" where
  "is_Counter (Counter c) = True"
| "is_Counter ListenCall = False"
| "is_Counter Subscribed = False"
| "is_Counter (ListenReturn e) = False"
| "is_Counter (NextRetry n) = False"
| "is_Counter (Sleep d) = False"

fun quiet_after :: "nat \<Rightarrow> obs list \<Rightarrow> bool" where
  "quiet_after k [] = True"
| "quiet_after k (x # t) =
     (if 5 \<le> k then is_Counter x \<and> t = [] else quiet_after (fails_since k [x]) t)"

text \<open>The payloads of the message events of a list of events, in order.\<close>

fun payloads :: "event list \<Rightarrow> string list" where
  "payloads [] = []"
| "payloads (Message ch d # es) = d # payloads es"
| "payloads (Subscription ch # es) = payloads es"
| "payloads (RecvError m # es) = payloads es"
| "payloads (Other # es) = payloads es"

text \<open>The error events of a list of events, as the error values they carry.\<close>

fun recv_errors :: "event list \<Rightarrow> error list" where
  "recv_errors [] = []"
| "recv_errors (RecvError m # es) = Some m # recv_errors es"
| "recv_errors (Message ch d # es) = recv_errors es"
| "recv_errors (Subscription ch # es) = recv_errors es"
| "recv_errors (Other # es) = recv_errors es"

text \<open>
  The first check of \<open>url.Parse\<close> in Go's standard library rejects a string that holds
  an ASCII control character; this instance of the parameter \<open>parse\<close> does that check
  only.
\<close>

definition parse_ctl :: "string \<Rightarrow> error" where
  "parse_ctl u =
     (if \<exists>c \<in> set u. (of_char c :: nat) < 32 \<or> (of_char c :: nat) = 127
      then Some ''net/url: invalid control character in URL'' else None)"

section \<open>Reading live sessions\<close>

text \<open>The content of the one-slot channel as a list.\<close>

fun chan_list :: "error option \<Rightarrow> error list" where
  "chan_list None = []"
| "chan_list (Some v) = [v]"

text \<open>The error the goroutine is about to send, as a list.\<close>

fun pending :: "recv_state \<Rightarrow> error list" where
  "pending Receiving = []"
| "pending (Sending m) = [Some m]"

text \<open>What the foreground has taken from \<open>done\<close>, read off its control state.\<close>

fun delivered :: "main_state \<Rightarrow> error list" where
  "delivered (Returned v) = [v]"
| "delivered Selecting = []"
| "delivered (Unsubscribing m) = []"
| "delivered (Waiting m) = []"

text \<open>
  The invariant of a live session: the handler has seen the payloads of the received
  messages; every received error event has been sent to \<open>done\<close> or is the pending send;
  what was sent has been taken or is in the channel; what was taken is what the
  foreground returned.
\<close>

definition live_inv :: "live \<Rightarrow> bool" where
  "live_inv st \<longleftrightarrow>
     handled st = payloads (received st)
   \<and> recv_errors (received st) = written st @ pending (recv st)
   \<and> written st = taken st @ chan_list (done_chan st)
   \<and> taken st = delivered (main st)"

text \<open>
  The same schedule with the error of every failing ping replaced, and the relation
  between two sessions that differ in nothing but the ping error the foreground holds.
\<close>

fun with_ping_error :: "string \<Rightarrow> action \<Rightarrow> action" where
  "with_ping_error pm (Tick (Some m)) = Tick (Some pm)"
| "with_ping_error pm (Tick None) = Tick None"
| "with_ping_error pm (Receive ev) = Receive ev"
| "with_ping_error pm Send = Send"
| "with_ping_error pm Unsubscribe = Unsubscribe"
| "with_ping_error pm TakeDone = TakeDone"

fun same_main :: "main_state \<Rightarrow> main_state \<Rightarrow> bool" where
  "same_main Selecting Selecting = True"
| "same_main (Unsubscribing m) (Unsubscribing m') = True"
| "same_main (Waiting m) (Waiting m') = True"
| "same_main (Returned v) (Returned v') = (v = v')"
| "same_main a b = False"

definition same_session :: "live \<Rightarrow> live \<Rightarrow> bool" where
  "same_session st st' \<longleftrightarrow>
     same_main (main st) (main st') \<and> recv st' = recv st \<and> done_chan st' = done_chan st
   \<and> received st' = received st \<and> handled st' = handled st \<and> written st' = written st
   \<and> taken st' = taken st \<and> pings st' = pings st \<and> unsubscribed st' = unsubscribed st"

text \<open>The events of the \<open>Receive\<close> moves of a schedule, in order.\<close>

fun receives :: "action list \<Rightarrow> event list" where
  "receives [] = []"
| "receives (Receive ev # as) = ev # receives as"
| "receives (Send # as) = receives as"
| "receives (Tick e # as) = receives as"
| "receives (Unsubscribe # as) = receives as"
| "receives (TakeDone # as) = receives as"

text \<open>
  The events of a schedule that the goroutine takes: those scheduled while it is at
  \<open>psc.Receive()\<close>. An event scheduled while the goroutine is held in \<open>done <- v\<close> is
  not taken.
\<close>

fun accepted :: "live \<Rightarrow> action list \<Rightarrow> event list" where
  "accepted st [] = []"
| "accepted st (Receive ev # as) =
     (if recv st = Receiving then [ev] else []) @ accepted (live_step (Receive ev) st) as"
| "accepted st (Send # as) = accepted (live_step Send st) as"
| "accepted st (Tick e # as) = accepted (live_step (Tick e) st) as"
| "accepted st (Unsubscribe # as) = accepted (live_step Unsubscribe st) as"
| "accepted st (TakeDone # as) = accepted (live_step TakeDone st) as"

text \<open>A schedule in which \<open>psc.Receive()\<close> yields no error.\<close>

fun error_free :: "action list \<Rightarrow> bool" where
  "error_free [] = True"
| "error_free (Receive (RecvError m) # as) = False"
| "error_free (Receive (Message ch d) # as) = error_free as"
| "error_free (Receive (Subscription ch) # as) = error_free as"
| "error_free (Receive Other # as) = error_free as"
| "error_free (Send # as) = error_free as"
| "error_free (Tick e # as) = error_free as"
| "error_free (Unsubscribe # as) = error_free as"
| "error_free (TakeDone # as) = error_free as"

section \<open>Example runs\<close>

text \<open>
  A subscriber in direct mode as the constructor builds it, and two session
  environments: a dial that is refused, and a session that subscribes and then stays
  live (no move of the live session is scheduled).
\<close>

definition s0 :: subscriber where
  "s0 = NewRedisSubscriber ''redis://localhost:6379/5'' False [] ''mymaster'' [] ''__anycable__''"

definition refused :: session_env where
  "refused = \<lparr> dial = Some ''connection refused'', subscribe = None, sched = [], raw = 0 \<rparr>"

definition connected :: session_env where
  "connected = \<lparr> dial = None, subscribe = None, sched = [], raw = 0 \<rparr>"

text \<open>
  Schedules of a live session: one that ends by an error event of the receive loop,
  one that ends after a failed ping, and the first continued after the return of
  \<open>listen\<close>, when \<open>Receive\<close> on the closed connection yields an error again.
\<close>

definition recv_error_sched :: "action list" where
  "recv_error_sched =
     [Receive (Subscription ''__anycable__''), Receive (Message ''__anycable__'' ''hello''),
      Tick None, Receive (RecvError ''EOF''), Send, TakeDone]"

definition ping_fail_sched :: "action list" where
  "ping_fail_sched =
     [Receive (Subscription ''__anycable__''), Receive (Message ''__anycable__'' ''hello''),
      Tick None, Tick (Some ''i/o timeout''), Unsubscribe,
      Receive (RecvError ''EOF''), Send, TakeDone]"

definition double_error_sched :: "action list" where
  "double_error_sched =
     recv_error_sched @ [Receive (RecvError ''use of closed network connection''), Send]"

text \<open>
  A schedule without error events, with two messages around a subscription
  confirmation, a ping and a reply of another type; and the same followed by an error
  event, after which the goroutine is held in the send.
\<close>

definition two_messages_sched :: "action list" where
  "two_messages_sched =
     [Receive (Subscription ''__anycable__''), Receive (Message ''__anycable__'' ''first''),
      Tick None, Receive Other, Receive (Message ''__anycable__'' ''second'')]"

definition held_in_send_sched :: "action list" where
  "held_in_send_sched = two_messages_sched @ [Receive (RecvError ''EOF'')]"


definition ended_by_ping :: session_env where
  "ended_by_ping = \<lparr> dial = None, subscribe = None, sched = ping_fail_sched, raw = 0 \<rparr>"

text \<open>The traces of \<open>Start\<close> in three runs of refused dials.\<close>

definition five_refusals :: "obs list" where
  "five_refusals =
     [ListenCall, ListenReturn (Some ''connection refused''), Counter 1, NextRetry 1,
      Sleep 1000000000,
      ListenCall, ListenReturn (Some ''connection refused''), Counter 2, NextRetry 2,
      Sleep 4000000000,
      ListenCall, ListenReturn (Some ''connection refused''), Counter 3, NextRetry 3,
      Sleep 9000000000,
      ListenCall, ListenReturn (Some ''connection refused''), Counter 4, NextRetry 4,
      Sleep 16000000000,
      ListenCall, ListenReturn (Some ''connection refused'')]"


definition two_refusals_then_success :: "obs list" where
  "two_refusals_then_success =
     [ListenCall, ListenReturn (Some ''connection refused''), Counter 1, NextRetry 1,
      Sleep 1000000000,
      ListenCall, ListenReturn (Some ''connection refused''), Counter 2, NextRetry 2,
      Sleep 4000000000,
      ListenCall, Subscribed, Counter 0]"

section \<open>Arithmetic of the backoff\<close>

lemma int64_id: "0 \<le> x \<Longrightarrow> x \<le> 9223372036854775807 \<Longrightarrow> int64 x = x"
  unfolding int64_def by (simp add: mod_pos_pos_trivial)

lemma nextRetry_small:
  assumes "1 \<le> n" "n \<le> 42949"
  shows "nextRetry n rw = Inr ((n * n + (int rw mod (n * 4)) * (n + 1)) * Second)"
proof -
  let ?r = "int rw mod (n * 4)"
  have r0: "0 \<le> ?r" using assms by simp
  have r1: "?r < n * 4" using assms by simp
  have n0: "0 \<le> n * n" by simp
  have "n * n \<le> 42949 * 42949" using assms by (intro mult_mono) auto
  then have nn: "n * n \<le> 1844616601" by simp
  have n4: "int64 (n * 4) = n * 4" using assms by (intro int64_id) auto
  have n1: "int64 (n + 1) = n + 1" using assms by (intro int64_id) auto
  have sq: "int64 (n * n) = n * n" using nn by (intro int64_id n0) simp
  have "?r * (n + 1) \<le> (42949 * 4) * (42949 + 1)"
    using assms r0 r1 by (intro mult_mono) auto
  then have rn: "?r * (n + 1) \<le> 7378638200" by simp
  have rn0: "0 \<le> ?r * (n + 1)" using assms r0 by simp
  have prod: "int64 (?r * (n + 1)) = ?r * (n + 1)" using rn by (intro int64_id rn0) simp
  have s0: "0 \<le> n * n + ?r * (n + 1)" using rn0 n0 by linarith
  have s1: "n * n + ?r * (n + 1) \<le> 9223254801" using rn nn by linarith
  have sum: "int64 (n * n + ?r * (n + 1)) = n * n + ?r * (n + 1)"
    using s1 by (intro int64_id s0) simp
  have f0: "0 \<le> (n * n + ?r * (n + 1)) * Second" using s0 by (simp add: Second_def)
  have f1: "(n * n + ?r * (n + 1)) * Second \<le> 9223372036854775807"
  proof -
    have "(n * n + ?r * (n + 1)) * Second \<le> 9223254801 * Second"
      using s1 by (intro mult_right_mono) (auto simp: Second_def)
    then show ?thesis by (simp add: Second_def)
  qed
  have fin: "int64 ((n * n + ?r * (n + 1)) * Second) = (n * n + ?r * (n + 1)) * Second"
    by (rule int64_id [OF f0 f1])
  have pos: "\<not> n * 4 \<le> 0" using assms by simp
  show ?thesis
    unfolding nextRetry_def Intn_def n4 using pos
    by (simp add: Let_def n1 sq prod sum fin)
qed

section \<open>The configuration of the sentinel pool\<close>

lemma sentinel_pool_fields:
  "MaxIdle sentinel_pool = 3 \<and> MaxActive sentinel_pool = 64 \<and> Wait sentinel_pool
   \<and> IdleTimeout sentinel_pool = 240 * Second"
  by (simp add: sentinel_pool_def)

lemma TestOnBorrow_passes_iff_master:
  "TestOnBorrow testRole c = None \<longleftrightarrow> testRole c ''master''"
  by (simp add: TestOnBorrow_def)

section \<open>The supervisor loop and its counter\<close>

lemma listen_shape:
  "listen env s = (r, s1, tr1) \<Longrightarrow>
     (s1 = s \<and> tr1 = [] \<and> (\<exists>m. r = Returns (Some m)))
   \<or> (s1 = s\<lparr>reconnectAttempt := 0\<rparr> \<and> tr1 = [Subscribed, Counter 0])"
  by (auto simp: listen_def split: if_splits option.splits)

lemma fails_since_append: "fails_since k (p @ q) = fails_since (fails_since k p) q"
  by (induction k p rule: fails_since.induct) auto

text \<open>The core of \<open>Start_loop\<close>: the counter follows the count of failed sessions.\<close>

lemma Start_loop_counted:
  "Start_loop envs s = (out, s', tr) \<Longrightarrow> reconnectAttempt s = int k \<Longrightarrow> k < 5 \<Longrightarrow>
     counted k tr \<and> reconnectAttempt s' = int (fails_since k tr) \<and> fails_since k tr \<le> 5
     \<and> quiet_after k tr
     \<and> (out = Failed (Some ''Redis reconnect attempts exceeded'') \<longleftrightarrow> fails_since k tr = 5)
     \<and> (\<forall>p. out \<noteq> Panicked p)"
proof (induction envs arbitrary: s out s' tr k)
  case Nil
  then show ?case by simp
next
  case (Cons env envs)
  obtain r s1 tr1 where L: "listen env s = (r, s1, tr1)" by (cases "listen env s") auto
  have k4: "int k \<le> 4" using Cons.prems(3) by simp
  from listen_shape [OF L] show ?case
  proof (elim disjE conjE exE)
    fix m assume A: "s1 = s" "tr1 = []" "r = Returns (Some m)"
    have n: "int64 (reconnectAttempt s1 + 1) = int k + 1"
      using A Cons.prems(2) k4 by (simp add: int64_id)
    show ?thesis
    proof (cases "k = 4")
      case True
      then show ?thesis
        using Cons.prems(1,2) L A n
        by (auto simp: Let_def maxReconnectAttempts_def)
    next
      case False
      then have lt: "Suc k < 5" using Cons.prems(3) by simp
      obtain d where d: "nextRetry (int k + 1) (raw env) = Inr d"
        using nextRetry_small [of "int k + 1" "raw env"] k4 by auto
      let ?s2 = "s1\<lparr>reconnectAttempt := int k + 1\<rparr>"
      obtain out3 s3 tr3 where R: "Start_loop envs ?s2 = (out3, s3, tr3)"
        by (cases "Start_loop envs ?s2") auto
      have IH: "counted (Suc k) tr3 \<and> reconnectAttempt s3 = int (fails_since (Suc k) tr3)
           \<and> fails_since (Suc k) tr3 \<le> 5 \<and> quiet_after (Suc k) tr3
           \<and> (out3 = Failed (Some ''Redis reconnect attempts exceeded'') \<longleftrightarrow> fails_since (Suc k) tr3 = 5)
           \<and> (\<forall>p. out3 \<noteq> Panicked p)"
        by (rule Cons.IH [OF R _ lt]) simp
      have res: "out = out3 \<and> s' = s3
          \<and> tr = [ListenCall, ListenReturn (Some m), Counter (int k + 1), NextRetry (int k + 1), Sleep d] @ tr3"
        using Cons.prems(1) L A n d R False Cons.prems(3)
        by (auto simp: Let_def maxReconnectAttempts_def)
      show ?thesis using IH Cons.prems(3) False unfolding res [THEN conjunct1] res [THEN conjunct2, THEN conjunct1] res [THEN conjunct2, THEN conjunct2]
        by simp
    qed
  next
    assume B: "s1 = s\<lparr>reconnectAttempt := 0\<rparr>" "tr1 = [Subscribed, Counter 0]"
    show ?thesis
    proof (cases r)
      case Running
      then show ?thesis using Cons.prems(1,3) L B by auto
    next
      case (Returns err)
      have n: "int64 (reconnectAttempt s1 + 1) = 1"
        using B by (simp add: int64_id)
      obtain d where d: "nextRetry 1 (raw env) = Inr d"
        using nextRetry_small [of 1 "raw env"] by auto
      let ?s2 = "s1\<lparr>reconnectAttempt := 1\<rparr>"
      obtain out3 s3 tr3 where R: "Start_loop envs ?s2 = (out3, s3, tr3)"
        by (cases "Start_loop envs ?s2") auto
      have IH: "counted (Suc 0) tr3 \<and> reconnectAttempt s3 = int (fails_since (Suc 0) tr3)
           \<and> fails_since (Suc 0) tr3 \<le> 5 \<and> quiet_after (Suc 0) tr3
           \<and> (out3 = Failed (Some ''Redis reconnect attempts exceeded'') \<longleftrightarrow> fails_since (Suc 0) tr3 = 5)
           \<and> (\<forall>p. out3 \<noteq> Panicked p)"
        by (rule Cons.IH [OF R]) simp_all
      have res: "out = out3 \<and> s' = s3
          \<and> tr = [ListenCall, Subscribed, Counter 0, ListenReturn err, Counter 1, NextRetry 1, Sleep d] @ tr3"
        using Cons.prems(1) L B n d R Returns
        by (auto simp: Let_def maxReconnectAttempts_def)
      show ?thesis using IH Cons.prems(3) unfolding res [THEN conjunct1] res [THEN conjunct2, THEN conjunct1] res [THEN conjunct2, THEN conjunct2]
        by simp
    qed
  qed
qed

lemma fails_since_Cons: "fails_since k (x # p) = fails_since (fails_since k [x]) p"
  by (cases x) auto

lemma quiet_after_split:
  "quiet_after k (p @ q) \<Longrightarrow> 5 \<le> fails_since k p \<Longrightarrow> q = [] \<or> (\<exists>c. q = [Counter c])"
proof (induction p arbitrary: k)
  case Nil
  show ?case
  proof (cases q)
    case Nil
    then show ?thesis by simp
  next
    case (Cons x t)
    then show ?thesis using Nil.prems by (cases x) auto
  qed
next
  case (Cons x p)
  show ?case
  proof (cases "5 \<le> k")
    case True
    then show ?thesis using Cons.prems(1) by simp
  next
    case False
    then have "quiet_after (fails_since k [x]) (p @ q)" using Cons.prems(1) by simp
    moreover have "5 \<le> fails_since (fails_since k [x]) p"
      using Cons.prems(2) fails_since_Cons [of k x p] by simp
    ultimately show ?thesis by (rule Cons.IH)
  qed
qed




lemma Start_loop_retry_args:
  "Start_loop envs s = (out, s', tr) \<Longrightarrow> 0 \<le> reconnectAttempt s \<Longrightarrow>
   reconnectAttempt s < 9223372036854775807 \<Longrightarrow>
     (\<forall>n. NextRetry n \<in> set tr \<longrightarrow> 1 \<le> n \<and> n \<le> 4) \<and> (\<forall>p. out \<noteq> Panicked p)"
proof (induction envs arbitrary: s out s' tr)
  case Nil
  then show ?case by simp
next
  case (Cons env envs)
  obtain r s1 tr1 where L: "listen env s = (r, s1, tr1)" by (cases "listen env s") auto
  have c1: "0 \<le> reconnectAttempt s1 \<and> reconnectAttempt s1 < 9223372036854775807"
    using listen_shape [OF L] Cons.prems(2,3) by auto
  have tr1: "\<forall>n. NextRetry n \<notin> set tr1" using listen_shape [OF L] by auto
  let ?n = "reconnectAttempt s1 + 1"
  have n: "int64 ?n = ?n" using c1 by (intro int64_id) auto
  show ?case
  proof (cases r)
    case Running
    then show ?thesis using Cons.prems(1) L tr1 by auto
  next
    case (Returns err)
    show ?thesis
    proof (cases "5 \<le> ?n")
      case True
      then show ?thesis using Cons.prems(1) L Returns n tr1
        by (auto simp: Let_def maxReconnectAttempts_def)
    next
      case False
      then have n14: "1 \<le> ?n" "?n \<le> 4" using c1 by auto
      obtain d where d: "nextRetry ?n (raw env) = Inr d"
        using nextRetry_small [of ?n "raw env"] n14 by auto
      let ?s2 = "s1\<lparr>reconnectAttempt := ?n\<rparr>"
      obtain out3 s3 tr3 where R: "Start_loop envs ?s2 = (out3, s3, tr3)"
        by (cases "Start_loop envs ?s2") auto
      have IH: "(\<forall>n. NextRetry n \<in> set tr3 \<longrightarrow> 1 \<le> n \<and> n \<le> 4) \<and> (\<forall>p. out3 \<noteq> Panicked p)"
        using n14 by (intro Cons.IH [OF R]) auto
      have res: "out = out3 \<and> tr = ListenCall # tr1 @ [ListenReturn err, Counter ?n, NextRetry ?n, Sleep d] @ tr3"
        using Cons.prems(1) L Returns n d R False
        by (auto simp: Let_def maxReconnectAttempts_def)
      show ?thesis using IH n14 tr1 unfolding res [THEN conjunct1] res [THEN conjunct2]
        by auto
    qed
  qed
qed

section \<open>The live session and its invariant\<close>

lemma payloads_snoc: "payloads (es @ [e]) = payloads es @ payloads [e]"
  by (induction es rule: payloads.induct) auto

lemma recv_errors_snoc: "recv_errors (es @ [e]) = recv_errors es @ recv_errors [e]"
  by (induction es rule: recv_errors.induct) auto

lemma run_live_append: "run_live (as @ bs) st = run_live bs (run_live as st)"
  by (induction as arbitrary: st) auto

lemma live_inv_live0: "live_inv live0"
  by (simp add: live_inv_def live0_def)

lemma live_inv_step: "live_inv st \<Longrightarrow> live_inv (live_step a st)"
proof (cases a)
  case (Receive ev)
  assume "live_inv st"
  then show ?thesis using Receive
    by (cases ev; cases "recv st")
       (auto simp: live_inv_def payloads_snoc recv_errors_snoc)
next
  case Send
  assume "live_inv st"
  then show ?thesis using Send
    by (cases "recv st"; cases "done_chan st") (auto simp: live_inv_def)
next
  case (Tick e)
  assume "live_inv st"
  then show ?thesis using Tick
    by (cases "main st"; cases e) (auto simp: live_inv_def)
next
  case Unsubscribe
  assume "live_inv st"
  then show ?thesis using Unsubscribe
    by (cases "main st") (auto simp: live_inv_def)
next
  case TakeDone
  assume "live_inv st"
  then show ?thesis using TakeDone
    by (cases "main st"; cases "done_chan st") (auto simp: live_inv_def)
qed

lemma live_inv_run: "live_inv st \<Longrightarrow> live_inv (run_live as st)"
  by (induction as arbitrary: st) (auto simp: live_inv_step)



lemma recv_errors_non_nil: "v \<in> set (recv_errors es) \<Longrightarrow> \<exists>m. v = Some m \<and> RecvError m \<in> set es"
  by (induction es rule: recv_errors.induct) auto

lemma returned_is_recv_error:
  assumes "live_inv st" "main st = Returned v"
  shows "taken st = [v] \<and> v \<in> set (written st) \<and> (\<exists>m. v = Some m \<and> RecvError m \<in> set (received st))"
proof -
  have e1: "recv_errors (received st) = written st @ pending (recv st)"
    and e2: "written st = taken st @ chan_list (done_chan st)"
    and e3: "taken st = delivered (main st)"
    using assms(1) by (simp_all add: live_inv_def)
  have t: "taken st = [v]" using e3 assms(2) by simp
  have w: "v \<in> set (written st)" by (subst e2) (simp add: t)
  have "v \<in> set (recv_errors (received st))" by (subst e1) (simp add: w)
  then show ?thesis using t w recv_errors_non_nil by blast
qed

lemma same_session_refl: "same_session st st"
  by (cases "main st") (auto simp: same_session_def)

lemma same_session_step:
  "same_session st st' \<Longrightarrow> same_session (live_step a st) (live_step (with_ping_error pm a) st')"
proof (cases a)
  case (Receive ev)
  assume "same_session st st'"
  then show ?thesis using Receive
    by (cases ev; cases "recv st") (auto simp: same_session_def)
next
  case Send
  assume "same_session st st'"
  then show ?thesis using Send
    by (cases "recv st"; cases "done_chan st") (auto simp: same_session_def)
next
  case (Tick e)
  assume "same_session st st'"
  then show ?thesis using Tick
    by (cases "main st"; cases "main st'"; cases e) (auto simp: same_session_def)
next
  case Unsubscribe
  assume "same_session st st'"
  then show ?thesis using Unsubscribe
    by (cases "main st"; cases "main st'") (auto simp: same_session_def)
next
  case TakeDone
  assume "same_session st st'"
  then show ?thesis using TakeDone
    by (cases "main st"; cases "main st'"; cases "done_chan st") (auto simp: same_session_def)
qed

lemma same_session_run:
  "same_session st st' \<Longrightarrow> same_session (run_live as st) (run_live (map (with_ping_error pm) as) st')"
  by (induction as arbitrary: st st') (auto simp: same_session_step)

lemma same_session_outcome:
  "same_session st st' \<Longrightarrow>
     (case main st' of Returned v \<Rightarrow> Returns v | _ \<Rightarrow> Running) =
     (case main st of Returned v \<Rightarrow> Returns v | _ \<Rightarrow> Running)"
  by (cases "main st"; cases "main st'") (auto simp: same_session_def)

section \<open>The claims about the supervisor\<close>

text \<open>
  C1. Take any run of \<open>Start\<close> on a subscriber whose counter is 0, as the constructor
  leaves it, and any point of its trace at which five sessions have failed since the
  last successful subscribe (or since the start). Then \<open>Start\<close> returns the error
  \<open>Redis reconnect attempts exceeded\<close>, the counter is 5, and what follows that point in
  the trace holds no further call of \<open>listen\<close>, no call of \<open>nextRetry\<close> and no sleep.
\<close>

theorem Start_gives_up_after_five_failures:
  assumes "Start parse envs s = (out, s', tr)"
    and "reconnectAttempt s = 0"
    and "tr = p @ q"
    and "fails_since 0 p = 5"
  shows "out = Failed (Some ''Redis reconnect attempts exceeded'')
       \<and> reconnectAttempt s' = 5
       \<and> ListenCall \<notin> set q \<and> (\<forall>d. Sleep d \<notin> set q) \<and> (\<forall>n. NextRetry n \<notin> set q)"
proof -
  have tr_ne: "tr \<noteq> []" using assms(3,4) by auto
  have L: "Start_loop envs s = (out, s', tr)"
    using assms(1) tr_ne by (auto simp: Start_def split: option.splits)
  have k: "reconnectAttempt s = int 0" using assms(2) by simp
  note core = Start_loop_counted [OF L k]
  have "quiet_after 0 (p @ q)" using core assms(3) by simp
  then have q: "q = [] \<or> (\<exists>c. q = [Counter c])"
    using assms(4) by (intro quiet_after_split [of 0 p q]) auto
  have "fails_since 0 tr = fails_since 5 q"
    using assms(3,4) by (simp add: fails_since_append)
  also have "\<dots> = 5" using q by auto
  finally have five: "fails_since 0 tr = 5" .
  show ?thesis using core five q by auto
qed

theorem Start_gives_up_after_five_failures_witness:
  "Start parse_ctl [refused, refused, refused, refused, refused, connected] s0 =
     (Failed (Some ''Redis reconnect attempts exceeded''), s0\<lparr>reconnectAttempt := 5\<rparr>,
      five_refusals @ [Counter 5])
   \<and> reconnectAttempt s0 = 0
   \<and> fails_since 0 five_refusals = 5
   \<and> reconnectAttempt (s0\<lparr>reconnectAttempt := 5\<rparr>) = 5
   \<and> ListenCall \<notin> set [Counter 5]"
proof -
  have run: "Start parse_ctl [refused, refused, refused, refused, refused, connected] s0 =
     (Failed (Some ''Redis reconnect attempts exceeded''), s0\<lparr>reconnectAttempt := 5\<rparr>,
      five_refusals @ [Counter 5])"
    by (simp add: five_refusals_def Start_def listen_def s0_def refused_def connected_def NewRedisSubscriber_def
        nextRetry_def Intn_def int64_def Second_def maxReconnectAttempts_def parse_ctl_def
        listen_live_def live0_def Let_def)
  have c0: "reconnectAttempt s0 = 0" by (simp add: s0_def NewRedisSubscriber_def)
  have f5: "fails_since 0 five_refusals = 5" by (simp add: five_refusals_def)
  show ?thesis
    using Start_gives_up_after_five_failures [OF run c0 refl f5] run c0 f5 by simp
qed



text \<open>
  C6. If \<open>url.Parse\<close> rejects the configured URL, \<open>Start\<close> returns that error at once:
  the trace is empty (no call of \<open>listen\<close>, no assignment to the counter, no sleep) and
  the subscriber is unchanged. The witness is the URL \<open>not a url\<close> followed by a space
  and the NUL character.
\<close>

theorem Start_malformed_url:
  assumes "parse (url s) = Some m"
  shows "Start parse envs s = (Failed (Some m), s, [])"
  using assms by (simp add: Start_def)

theorem Start_malformed_url_witness:
  "parse_ctl (url (s0\<lparr>url := ''not a url '' @ [CHR 0x00]\<rparr>))
     = Some ''net/url: invalid control character in URL''
   \<and> Start parse_ctl [connected] (s0\<lparr>url := ''not a url '' @ [CHR 0x00]\<rparr>)
     = (Failed (Some ''net/url: invalid control character in URL''),
        s0\<lparr>url := ''not a url '' @ [CHR 0x00]\<rparr>, [])"
proof -
  have bad: "parse_ctl (url (s0\<lparr>url := ''not a url '' @ [CHR 0x00]\<rparr>))
     = Some ''net/url: invalid control character in URL''"
    by (simp add: parse_ctl_def)
  show ?thesis
    using Start_malformed_url [of parse_ctl "s0\<lparr>url := ''not a url '' @ [CHR 0x00]\<rparr>"
        "''net/url: invalid control character in URL''" "[connected]"] bad
    by simp
qed

text \<open>
  C9. In every run of \<open>Start\<close> on a subscriber whose counter is not negative (and not
  the largest \<open>int\<close>), every call of \<open>nextRetry\<close> has an argument from 1 to 4: the
  bound \<open>step*4\<close> passed to \<open>rand.Intn\<close> is positive, \<open>nextRetry\<close> returns for every
  draw, and \<open>Start\<close> does not panic. The constructor sets the counter to 0 and only
  \<open>Start\<close> and \<open>listen\<close> assign it.
\<close>

theorem nextRetry_never_called_with_zero:
  assumes "Start parse envs s = (out, s', tr)"
    and "0 \<le> reconnectAttempt s"
    and "reconnectAttempt s < 9223372036854775807"
  shows "(\<forall>n. NextRetry n \<in> set tr \<longrightarrow>
            1 \<le> n \<and> n \<le> 4 \<and> 0 < int64 (n * 4) \<and> (\<forall>rw. \<exists>d. nextRetry n rw = Inr d))
       \<and> (\<forall>p. out \<noteq> Panicked p)"
proof (cases "parse (url s)")
  case (Some m)
  then show ?thesis using assms(1) by (auto simp: Start_def)
next
  case None
  then have L: "Start_loop envs s = (out, s', tr)" using assms(1) by (simp add: Start_def)
  note core = Start_loop_retry_args [OF L assms(2,3)]
  have "0 < int64 (n * 4) \<and> (\<forall>rw. \<exists>d. nextRetry n rw = Inr d)" if "1 \<le> n" "n \<le> 4" for n
  proof -
    have "int64 (n * 4) = n * 4" using that by (intro int64_id) auto
    moreover have "\<forall>rw. \<exists>d. nextRetry n rw = Inr d"
      using nextRetry_small [of n] that by auto
    ultimately show ?thesis using that by simp
  qed
  then show ?thesis using core by blast
qed

theorem nextRetry_never_called_with_zero_witness:
  "Start parse_ctl [refused, refused, connected] s0 = (NotReturned, s0, two_refusals_then_success)
   \<and> 0 \<le> reconnectAttempt s0 \<and> reconnectAttempt s0 < 9223372036854775807
   \<and> NextRetry 2 \<in> set two_refusals_then_success
   \<and> (1::int) \<le> 2 \<and> (2::int) \<le> 4 \<and> 0 < int64 (2 * 4)
   \<and> nextRetry 2 0 = Inr 4000000000"
proof -
  have run: "Start parse_ctl [refused, refused, connected] s0 =
     (NotReturned, s0, two_refusals_then_success)"
    by (simp add: two_refusals_then_success_def Start_def listen_def s0_def refused_def connected_def NewRedisSubscriber_def
        nextRetry_def Intn_def int64_def Second_def maxReconnectAttempts_def parse_ctl_def
        listen_live_def live0_def Let_def)
  have c0: "0 \<le> reconnectAttempt s0" and c1: "reconnectAttempt s0 < 9223372036854775807"
    by (simp_all add: s0_def NewRedisSubscriber_def)
  have mem: "NextRetry 2 \<in> set two_refusals_then_success"
    by (simp add: two_refusals_then_success_def)
  have ev: "nextRetry 2 0 = Inr 4000000000"
    by (simp add: nextRetry_def Intn_def int64_def Second_def)
  have "0 < int64 (2 * 4)"
    using nextRetry_never_called_with_zero [OF run c0 c1] mem by blast
  then show ?thesis
    using run c0 c1 mem ev by simp
qed

lemma listen_live_inv: "live_inv (listen_live env)"
  unfolding listen_live_def by (rule live_inv_run [OF live_inv_live0])

lemma listen_went_live:
  assumes "listen env s = (Returns v, s', [Subscribed, Counter 0])"
  shows "main (listen_live env) = Returned v"
  using assms
  by (cases "main (listen_live env)")
     (auto simp: listen_def split: if_splits option.splits)


lemma done_read_at_most_once: "length (taken (run_live as live0)) \<le> 1"
proof -
  have "live_inv (run_live as live0)" by (rule live_inv_run [OF live_inv_live0])
  then have "taken (run_live as live0) = delivered (main (run_live as live0))"
    by (simp add: live_inv_def)
  then show ?thesis by (cases "main (run_live as live0)") auto
qed

lemma done_written_at_most_twice: "length (written (run_live as live0)) \<le> 2"
proof -
  have "live_inv (run_live as live0)" by (rule live_inv_run [OF live_inv_live0])
  then have "written (run_live as live0) =
      taken (run_live as live0) @ chan_list (done_chan (run_live as live0))"
    by (simp add: live_inv_def)
  moreover have "length (chan_list (done_chan (run_live as live0))) \<le> 1"
    by (cases "done_chan (run_live as live0)") auto
  ultimately show ?thesis using done_read_at_most_once [of as] by simp
qed

lemma unsubscribed_step:
  "unsubscribed (live_step a st) \<Longrightarrow> unsubscribed st \<or> (\<exists>m. main st = Unsubscribing m)"
  by (cases a; cases "recv st"; cases "done_chan st"; cases "main st")
     (auto split: event.splits option.splits)

lemma unsubscribing_step:
  "main (live_step a st) = Unsubscribing m \<Longrightarrow> main st = Unsubscribing m \<or> a = Tick (Some m)"
  by (cases a; cases "recv st"; cases "done_chan st"; cases "main st")
     (auto split: event.splits option.splits)

lemma unsubscribed_run:
  "unsubscribed (run_live as st) \<or> (\<exists>m. main (run_live as st) = Unsubscribing m) \<Longrightarrow>
     unsubscribed st \<or> (\<exists>m. main st = Unsubscribing m) \<or> (\<exists>m. Tick (Some m) \<in> set as)"
proof (induction as arbitrary: st)
  case Nil
  then show ?case by auto
next
  case (Cons a as)
  from Cons.IH [of "live_step a st"] Cons.prems
  have "unsubscribed (live_step a st) \<or> (\<exists>m. main (live_step a st) = Unsubscribing m)
        \<or> (\<exists>m. Tick (Some m) \<in> set as)" by simp
  then show ?case using unsubscribed_step [of a st] unsubscribing_step [of a st] by auto
qed

section \<open>The events of a schedule and the handler\<close>

lemma payloads_append: "payloads (xs @ ys) = payloads xs @ payloads ys"
  by (induction xs rule: payloads.induct) auto

lemma payloads_Cons: "payloads (ev # es) = payloads [ev] @ payloads es"
  by (cases ev) auto

lemma receive_step:
  "recv st = Receiving \<Longrightarrow>
     received (live_step (Receive ev) st) = received st @ [ev]
   \<and> handled (live_step (Receive ev) st) = handled st @ payloads [ev]"
  by (cases ev) auto

lemma receive_held: "recv st = Sending m \<Longrightarrow> live_step (Receive ev) st = st"
  by simp

lemma other_step:
  "\<forall>ev. a \<noteq> Receive ev \<Longrightarrow>
     handled (live_step a st) = handled st \<and> received (live_step a st) = received st"
  by (cases a; cases "recv st"; cases "done_chan st"; cases "main st")
     (auto split: option.splits)

lemma run_live_snoc: "run_live (as @ [a]) st = live_step a (run_live as st)"
  by (induction as arbitrary: st) auto

lemma accepted_run:
  "received (run_live as st) = received st @ accepted st as
   \<and> handled (run_live as st) = handled st @ payloads (accepted st as)"
proof (induction as arbitrary: st)
  case Nil
  then show ?case by simp
next
  case (Cons a as)
  show ?case
  proof (cases a)
    case (Receive ev)
    show ?thesis
    proof (cases "recv st")
      case Receiving
      have acc: "accepted st (a # as) = ev # accepted (live_step a st) as"
        using Receive Receiving by simp
      have run: "run_live (a # as) st = run_live as (live_step a st)" by simp
      have step: "received (live_step a st) = received st @ [ev]"
        "handled (live_step a st) = handled st @ payloads [ev]"
        using receive_step [OF Receiving, of ev] Receive by simp_all
      have pc: "payloads (ev # accepted (live_step a st) as) =
          payloads [ev] @ payloads (accepted (live_step a st) as)"
        by (rule payloads_Cons)
      have IH: "received (run_live as (live_step a st)) =
            received (live_step a st) @ accepted (live_step a st) as"
        "handled (run_live as (live_step a st)) =
            handled (live_step a st) @ payloads (accepted (live_step a st) as)"
        using Cons.IH [of "live_step a st"] by simp_all
      show ?thesis
        unfolding acc run IH step pc by simp
    next
      case (Sending m)
      have acc: "accepted st (a # as) = accepted (live_step a st) as"
        using Receive Sending by simp
      have run: "run_live (a # as) st = run_live as (live_step a st)" by simp
      have same: "live_step a st = st" using Receive receive_held [OF Sending] by simp
      show ?thesis
        unfolding acc run using Cons.IH [of "live_step a st"] same by simp
    qed
  next
    case Send
    then show ?thesis using Cons.IH [of "live_step Send st"] other_step [of Send st] by simp
  next
    case (Tick e)
    then show ?thesis
      using Cons.IH [of "live_step (Tick e) st"] other_step [of "Tick e" st] by simp
  next
    case Unsubscribe
    then show ?thesis
      using Cons.IH [of "live_step Unsubscribe st"] other_step [of Unsubscribe st] by simp
  next
    case TakeDone
    then show ?thesis
      using Cons.IH [of "live_step TakeDone st"] other_step [of TakeDone st] by simp
  qed
qed

lemma stays_receiving:
  "recv st = Receiving \<Longrightarrow> \<forall>m. a \<noteq> Receive (RecvError m) \<Longrightarrow>
     recv (live_step a st) = Receiving"
  by (cases a; cases "done_chan st"; cases "main st")
     (auto split: option.splits event.splits)

lemma accepted_error_free:
  "recv st = Receiving \<Longrightarrow> \<forall>m. Receive (RecvError m) \<notin> set as \<Longrightarrow>
     accepted st as = receives as"
proof (induction as arbitrary: st)
  case Nil
  then show ?case by simp
next
  case (Cons a as)
  have r: "recv (live_step a st) = Receiving"
    using Cons.prems by (intro stays_receiving) auto
  have "accepted (live_step a st) as = receives as"
    using Cons.prems(2) by (intro Cons.IH [OF r]) auto
  then show ?case using Cons.prems(1) by (cases a) auto
qed

lemma error_free_set: "error_free as \<Longrightarrow> Receive (RecvError m) \<notin> set as"
  by (induction as rule: error_free.induct) auto

section \<open>The claims about the session\<close>

text \<open>
  C7. In every live session, under every schedule: the events the goroutine receives
  are the events scheduled while it is at \<open>psc.Receive()\<close>, and the calls of
  \<open>node.HandlePubsub\<close> are the payloads of the message events among them, each once,
  in the order of receipt and unchanged. In a schedule without error events these are
  all the scheduled events. Receiving a message adds one call with its data;
  receiving a subscription confirmation, an error or another value adds none; an
  event scheduled while the goroutine is held in \<open>done <- v\<close> is not received; no
  other move of the session calls the handler.
\<close>

theorem messages_forwarded_once_in_order:
  "handled (run_live as live0) = payloads (received (run_live as live0))
   \<and> received (run_live as live0) = accepted live0 as
   \<and> handled (run_live as live0) = payloads (accepted live0 as)
   \<and> (error_free as \<longrightarrow>
         received (run_live as live0) = receives as
       \<and> handled (run_live as live0) = payloads (receives as))
   \<and> (recv (run_live as live0) = Receiving \<longrightarrow>
         (\<forall>ch d. handled (run_live (as @ [Receive (Message ch d)]) live0)
                  = handled (run_live as live0) @ [d])
       \<and> (\<forall>ch. handled (run_live (as @ [Receive (Subscription ch)]) live0)
                  = handled (run_live as live0))
       \<and> (\<forall>ev. received (run_live (as @ [Receive ev]) live0)
                  = received (run_live as live0) @ [ev]
               \<and> handled (run_live (as @ [Receive ev]) live0)
                  = handled (run_live as live0) @ payloads [ev]))
   \<and> (\<forall>m ev. recv (run_live as live0) = Sending m \<longrightarrow>
         run_live (as @ [Receive ev]) live0 = run_live as live0)
   \<and> (\<forall>a. (\<forall>ev. a \<noteq> Receive ev) \<longrightarrow>
         handled (run_live (as @ [a]) live0) = handled (run_live as live0)
       \<and> received (run_live (as @ [a]) live0) = received (run_live as live0))"
proof -
  let ?st = "run_live as live0"
  have inv: "handled ?st = payloads (received ?st)"
    using live_inv_run [OF live_inv_live0, of as] by (simp add: live_inv_def)
  have acc: "received ?st = accepted live0 as" "handled ?st = payloads (accepted live0 as)"
    using accepted_run [of as live0] by (simp_all add: live0_def)
  have free: "received ?st = receives as \<and> handled ?st = payloads (receives as)"
    if "error_free as"
  proof -
    have "\<forall>m. Receive (RecvError m) \<notin> set as" using that error_free_set by blast
    then have "accepted live0 as = receives as"
      by (intro accepted_error_free) (simp add: live0_def)
    then show ?thesis using acc by simp
  qed
  have rcv: "(\<forall>ch d. handled (run_live (as @ [Receive (Message ch d)]) live0) = handled ?st @ [d])
       \<and> (\<forall>ch. handled (run_live (as @ [Receive (Subscription ch)]) live0) = handled ?st)
       \<and> (\<forall>ev. received (run_live (as @ [Receive ev]) live0) = received ?st @ [ev]
               \<and> handled (run_live (as @ [Receive ev]) live0) = handled ?st @ payloads [ev])"
    if r: "recv ?st = Receiving"
  proof -
    have ev: "received (run_live (as @ [Receive ev]) live0) = received ?st @ [ev]
        \<and> handled (run_live (as @ [Receive ev]) live0) = handled ?st @ payloads [ev]" for ev
      unfolding run_live_snoc by (rule receive_step [OF r])
    have msg: "handled (run_live (as @ [Receive (Message ch d)]) live0) = handled ?st @ [d]"
      for ch d using ev [of "Message ch d"] by simp
    have sub: "handled (run_live (as @ [Receive (Subscription ch)]) live0) = handled ?st"
      for ch using ev [of "Subscription ch"] by simp
    show ?thesis using ev msg sub by blast
  qed
  have held: "run_live (as @ [Receive ev]) live0 = ?st" if "recv ?st = Sending m" for m ev
    unfolding run_live_snoc by (rule receive_held [OF that])
  have other: "handled (run_live (as @ [a]) live0) = handled ?st
       \<and> received (run_live (as @ [a]) live0) = received ?st" if "\<forall>ev. a \<noteq> Receive ev" for a
    unfolding run_live_snoc by (rule other_step [OF that])
  show ?thesis using inv acc free rcv held other by blast
qed

theorem messages_forwarded_once_in_order_witness:
  "error_free two_messages_sched
   \<and> receives two_messages_sched =
       [Subscription ''__anycable__'', Message ''__anycable__'' ''first'', Other,
        Message ''__anycable__'' ''second'']
   \<and> received (run_live two_messages_sched live0) = receives two_messages_sched
   \<and> handled (run_live two_messages_sched live0) = [''first'', ''second'']
   \<and> recv (run_live two_messages_sched live0) = Receiving
   \<and> handled (run_live (two_messages_sched @ [Receive (Message ''__anycable__'' ''third'')]) live0)
       = [''first'', ''second'', ''third'']
   \<and> handled (run_live (two_messages_sched @ [Receive (Subscription ''__anycable__'')]) live0)
       = [''first'', ''second'']
   \<and> handled (run_live (two_messages_sched @ [Tick None]) live0) = [''first'', ''second'']
   \<and> recv (run_live held_in_send_sched live0) = Sending ''EOF''
   \<and> run_live (held_in_send_sched @ [Receive (Message ''__anycable__'' ''late'')]) live0
       = run_live held_in_send_sched live0"
proof -
  have ef: "error_free two_messages_sched" by (simp add: two_messages_sched_def)
  have rs: "receives two_messages_sched =
       [Subscription ''__anycable__'', Message ''__anycable__'' ''first'', Other,
        Message ''__anycable__'' ''second'']"
    by (simp add: two_messages_sched_def)
  have r: "recv (run_live two_messages_sched live0) = Receiving"
    by (simp add: two_messages_sched_def live0_def)
  have h: "recv (run_live held_in_send_sched live0) = Sending ''EOF''"
    by (simp add: held_in_send_sched_def two_messages_sched_def live0_def)
  have nr: "\<forall>ev. Tick None \<noteq> Receive ev" by simp
  note T = messages_forwarded_once_in_order [of two_messages_sched]
  note H = messages_forwarded_once_in_order [of held_in_send_sched]
  have a: "received (run_live two_messages_sched live0) = receives two_messages_sched"
    and b: "handled (run_live two_messages_sched live0) = payloads (receives two_messages_sched)"
    using T ef by blast+
  have b': "handled (run_live two_messages_sched live0) = [''first'', ''second'']"
    unfolding b rs by simp
  have c: "handled (run_live (two_messages_sched @ [Receive (Message ''__anycable__'' ''third'')]) live0)
       = handled (run_live two_messages_sched live0) @ [''third'']"
    and d: "handled (run_live (two_messages_sched @ [Receive (Subscription ''__anycable__'')]) live0)
       = handled (run_live two_messages_sched live0)"
    using T r by blast+
  have e: "handled (run_live (two_messages_sched @ [Tick None]) live0)
       = handled (run_live two_messages_sched live0)"
    using T nr by blast
  have f: "run_live (held_in_send_sched @ [Receive (Message ''__anycable__'' ''late'')]) live0
       = run_live held_in_send_sched live0"
    using H h by blast
  show ?thesis
    unfolding c d e b' using ef rs a b' r h f by simp
qed



text \<open>
  C10. If a session that had subscribed returns after \<open>psc.Unsubscribe()\<close>, which is
  executed only after a failed ping, then a ping did fail, and the error \<open>listen\<close>
  returns is the single value taken from \<open>done\<close>: a value the receive goroutine sent,
  the error of an error event it received. The ping error is dropped: with the error
  of the failing ping replaced by any other, \<open>listen\<close> returns the same.
\<close>

theorem ping_error_is_discarded:
  assumes "listen env s = (Returns v, s', [Subscribed, Counter 0])"
    and "unsubscribed (listen_live env)"
  shows "(\<exists>pm. Tick (Some pm) \<in> set (sched env))
       \<and> taken (listen_live env) = [v]
       \<and> v \<in> set (written (listen_live env))
       \<and> (\<exists>m. v = Some m \<and> RecvError m \<in> set (received (listen_live env)))
       \<and> (\<forall>pm. listen (env\<lparr>sched := map (with_ping_error pm) (sched env)\<rparr>) s = listen env s)"
proof -
  have m: "main (listen_live env) = Returned v" using assms(1) by (rule listen_went_live)
  have p: "\<exists>pm. Tick (Some pm) \<in> set (sched env)"
    using unsubscribed_run [of "sched env" live0] assms(2)
    by (auto simp: listen_live_def live0_def)
  have i: "listen (env\<lparr>sched := map (with_ping_error pm) (sched env)\<rparr>) s = listen env s" for pm
  proof -
    have "same_session (listen_live env)
            (listen_live (env\<lparr>sched := map (with_ping_error pm) (sched env)\<rparr>))"
      unfolding listen_live_def using same_session_run [OF same_session_refl] by simp
    from same_session_outcome [OF this] show ?thesis
      by (simp add: listen_def split: option.splits)
  qed
  show ?thesis using p returned_is_recv_error [OF listen_live_inv m] i by blast
qed

theorem ping_error_is_discarded_witness:
  "listen ended_by_ping s0 = (Returns (Some ''EOF''), s0, [Subscribed, Counter 0])
   \<and> unsubscribed (listen_live ended_by_ping)
   \<and> Tick (Some ''i/o timeout'') \<in> set (sched ended_by_ping)
   \<and> taken (listen_live ended_by_ping) = [Some ''EOF'']
   \<and> RecvError ''EOF'' \<in> set (received (listen_live ended_by_ping))
   \<and> listen (ended_by_ping\<lparr>sched := map (with_ping_error ''broken pipe'') (sched ended_by_ping)\<rparr>) s0
       = listen ended_by_ping s0"
proof -
  have run: "listen ended_by_ping s0 = (Returns (Some ''EOF''), s0, [Subscribed, Counter 0])"
    by (simp add: listen_def listen_live_def live0_def s0_def NewRedisSubscriber_def
        ping_fail_sched_def ended_by_ping_def)
  have u: "unsubscribed (listen_live ended_by_ping)" by (simp add: listen_def listen_live_def live0_def s0_def NewRedisSubscriber_def
        ping_fail_sched_def ended_by_ping_def)
  have r: "received (listen_live ended_by_ping) =
     [Subscription ''__anycable__'', Message ''__anycable__'' ''hello'', RecvError ''EOF'']"
    by (simp add: listen_def listen_live_def live0_def s0_def NewRedisSubscriber_def
        ping_fail_sched_def ended_by_ping_def)
  have k: "Tick (Some ''i/o timeout'') \<in> set (sched ended_by_ping)" by (simp add: listen_def listen_live_def live0_def s0_def NewRedisSubscriber_def
        ping_fail_sched_def ended_by_ping_def)
  have e: "RecvError ''EOF'' \<in> set (received (listen_live ended_by_ping))"
    by (simp add: r)
  show ?thesis
    using ping_error_is_discarded [OF run u] run u e k by blast
qed

text \<open>
  C4. The claim that at most one value is written to \<open>done\<close> and that the receive loop
  stops after an error event does not hold of the code: the \<open>break\<close> after
  \<open>done <- v\<close> leaves the \<open>switch\<close>, not the \<open>for\<close> loop. In the run below the
  goroutine receives a second error event after \<open>listen\<close> has returned with the first
  and sends a second value to \<open>done\<close>. (At most one value is read from \<open>done\<close>, and at
  most two are written: \<open>done_read_at_most_once\<close>, \<open>done_written_at_most_twice\<close>.)
\<close>

theorem receive_loop_continues_after_error:
  "main (run_live double_error_sched live0) = Returned (Some ''EOF'')
   \<and> received (run_live double_error_sched live0) =
       [Subscription ''__anycable__'', Message ''__anycable__'' ''hello'',
        RecvError ''EOF'', RecvError ''use of closed network connection'']
   \<and> written (run_live double_error_sched live0) =
       [Some ''EOF'', Some ''use of closed network connection'']
   \<and> taken (run_live double_error_sched live0) = [Some ''EOF'']"
  by (simp add: live0_def recv_error_sched_def double_error_sched_def)

section \<open>The claims about the backoff\<close>

text \<open>
  C3, on the range where the 64-bit arithmetic cannot wrap. For an attempt count \<open>n\<close> from 1 to 42949, \<open>nextRetry n\<close> returns
  (does not panic), and the delay is \<open>n\<^sup>2 + r \<sqdot> (n + 1)\<close> seconds for the draw \<open>r\<close> of
  \<open>[0, 4n)\<close>: at least \<open>n\<^sup>2\<close> seconds and less than \<open>n\<^sup>2 + 4n(n + 1)\<close> seconds. The
  function has no state: its result depends on \<open>n\<close> and the draw only.
\<close>

theorem nextRetry_bounds:
  assumes "1 \<le> n" "n \<le> 42949"
  shows "\<exists>d. nextRetry n rw = Inr d
           \<and> n * n * Second \<le> d
           \<and> d < (n * n + 4 * n * (n + 1)) * Second
           \<and> d = (n * n + (int rw mod (n * 4)) * (n + 1)) * Second"
proof -
  let ?r = "int rw mod (n * 4)"
  have r0: "0 \<le> ?r" using assms by simp
  have r1: "?r < 4 * n" using assms by (simp add: mult.commute)
  have lo: "0 \<le> ?r * (n + 1)" using assms r0 by simp
  have hi: "?r * (n + 1) < 4 * n * (n + 1)"
    using assms r1 by (intro mult_strict_right_mono) auto
  have S: "0 < Second" by (simp add: Second_def)
  have a: "n * n * Second \<le> (n * n + ?r * (n + 1)) * Second"
    using lo S by (intro mult_right_mono) auto
  have b: "(n * n + ?r * (n + 1)) * Second < (n * n + 4 * n * (n + 1)) * Second"
    using hi S by (intro mult_strict_right_mono) auto
  show ?thesis using nextRetry_small [OF assms, of rw] a b by blast
qed

theorem nextRetry_bounds_witness:
  "(1::int) \<le> 3 \<and> (3::int) \<le> 42949
   \<and> (\<exists>d. nextRetry 3 7 = Inr d
          \<and> 3 * 3 * Second \<le> d
          \<and> d < (3 * 3 + 4 * 3 * (3 + 1)) * Second
          \<and> d = (3 * 3 + (int 7 mod (3 * 4)) * (3 + 1)) * Second)"
  using nextRetry_bounds [of 3 7] by simp

text \<open>
  C3 as stated, for every \<open>n \<ge> 1\<close>, fails when the 64-bit arithmetic wraps: for
  \<open>n = 100000\<close> and the draw 0 the seconds are \<open>10\<^sup>1\<^sup>0\<close>, and their product with
  \<open>time.Second\<close> wraps to a negative duration, below \<open>n\<^sup>2\<close> seconds.
\<close>

theorem nextRetry_overflow_counterexample:
  "(1::int) \<le> 100000
   \<and> nextRetry 100000 0 = Inr (- 8446744073709551616)
   \<and> \<not> (100000 * 100000 * Second \<le> - 8446744073709551616)"
  by (simp add: nextRetry_def Intn_def int64_def Second_def)

end
